theory Spec2Isabelle
  imports Complex_Main "HOL-Library.Log_Nat"
begin

section \<open>JavaScript numbers\<close>

text \<open>
  A JavaScript number is an IEEE 754 binary64 value: NaN, an infinity with its sign, or
  a finite value, the sign times a mantissa times a power of two. The sign is
  \<open>True\<close> for minus and is kept for zero too. A finite value is held in canonical
  form, so that each number has one representation: the mantissa is odd, or it is zero
  with exponent zero.
\<close>

datatype double = NaN | Infinity bool | Finite bool int int

text \<open>
  \<open>M / 2\<^bsup>s\<^esup>\<close> rounded to the nearest integer, a tie to the even one: the rounding mode
  of JavaScript arithmetic.
\<close>

definition round_shift :: "int \<Rightarrow> nat \<Rightarrow> int" where
  "round_shift M s =
     (if s = 0 then M
      else (let q = M div 2 ^ s; r = M mod 2 ^ s; half = 2 ^ (s - 1)
            in if half < r \<or> (r = half \<and> odd q) then q + 1 else q))"

text \<open>The canonical form of the magnitude \<open>m \<sqdot> 2\<^bsup>e\<^esup>\<close>: trailing zero bits go to the exponent.\<close>

function canon :: "int \<Rightarrow> int \<Rightarrow> int \<times> int" where
  "canon m e = (if m \<le> 0 then (0, 0) else if even m then canon (m div 2) (e + 1) else (m, e))"
  by pat_completeness auto
termination
  by (relation "measure (\<lambda>(m, e). nat m)") auto

declare canon.simps [simp del]

text \<open>
  The number nearest to \<open>M \<sqdot> 2\<^bsup>E\<^esup>\<close>, for \<open>M\<close> not negative. The mantissa is cut
  to 53 bits, or to the bits above \<open>2\<^bsup>-1074\<^esup>\<close> where the result is subnormal, and
  rounded; a result that rounds to nothing is a zero of the given sign, and a result
  of \<open>2\<^bsup>1024\<^esup>\<close> or more is an infinity.
\<close>

definition round_double :: "bool \<Rightarrow> int \<Rightarrow> int \<Rightarrow> double" where
  "round_double s M E =
     (let shift = nat (max (bitlen M - 53) (- 1074 - E));
          q = round_shift M shift;
          e = E + int shift
      in if q \<le> 0 then Finite s 0 0
         else if 1024 < bitlen q + e then Infinity s
         else (case canon q e of (m, e') \<Rightarrow> Finite s m e'))"

text \<open>The number nearest to \<open>k \<sqdot> 2\<^bsup>e\<^esup>\<close>, and the number that the integer literal \<open>k\<close> denotes.\<close>

definition dyadic :: "int \<Rightarrow> int \<Rightarrow> double" where
  "dyadic k e = round_double (k < 0) \<bar>k\<bar> e"

definition num :: "int \<Rightarrow> double" where
  "num k = dyadic k 0"

text \<open>
  The operators \<open>*\<close> and \<open>+\<close> on numbers: the exact product or sum of two finite
  numbers, rounded; NaN and the infinities as IEEE 754 has them. An exact sum of zero is
  \<open>+0\<close>, unless both operands are \<open>-0\<close>.
\<close>

fun dmul :: "double \<Rightarrow> double \<Rightarrow> double" where
  "dmul NaN y = NaN"
| "dmul x NaN = NaN"
| "dmul (Infinity s) (Infinity t) = Infinity (s \<noteq> t)"
| "dmul (Infinity s) (Finite t n f) = (if n = 0 then NaN else Infinity (s \<noteq> t))"
| "dmul (Finite s m e) (Infinity t) = (if m = 0 then NaN else Infinity (s \<noteq> t))"
| "dmul (Finite s m e) (Finite t n f) = round_double (s \<noteq> t) (m * n) (e + f)"

fun dadd :: "double \<Rightarrow> double \<Rightarrow> double" where
  "dadd NaN y = NaN"
| "dadd x NaN = NaN"
| "dadd (Infinity s) (Infinity t) = (if s = t then Infinity s else NaN)"
| "dadd (Infinity s) (Finite t n f) = Infinity s"
| "dadd (Finite s m e) (Infinity t) = Infinity t"
| "dadd (Finite s m e) (Finite t n f) =
     (let e0 = min e f;
          a = (if s then - m else m) * 2 ^ nat (e - e0) + (if t then - n else n) * 2 ^ nat (f - e0)
      in if a = 0 then Finite (s \<and> t) 0 0 else round_double (a < 0) \<bar>a\<bar> e0)"

text \<open>
  \<open>Math.pow(base, exponent)\<close> of the platform, at the exponents this program uses:
  a literal natural number. The language specification fixes the results for an
  exponent of zero, for NaN, for the infinities and for the zeros, and leaves the result
  at a finite base implementation-approximated; the model takes the exact power rounded
  to the nearest number.
\<close>

definition Math_pow :: "double \<Rightarrow> nat \<Rightarrow> double" where
  "Math_pow base exponent =
     (if exponent = 0 then num 1
      else (case base of
              NaN \<Rightarrow> NaN
            | Infinity s \<Rightarrow> Infinity (s \<and> odd exponent)
            | Finite s m e \<Rightarrow> round_double (s \<and> odd exponent) (m ^ exponent) (e * int exponent)))"


text \<open>
  A canonical pair is a double when the mantissa has at most 53 bits, the exponent is at
  least \<open>-1074\<close> (the least subnormal is \<open>2\<^bsup>-1074\<^esup>\<close>) and the value is below
  \<open>2\<^bsup>1024\<^esup>\<close>. \<open>exact k e\<close>: the real number \<open>k \<sqdot> 2\<^bsup>e\<^esup>\<close> is a double, so that
  \<open>dyadic k e\<close> is that number with no rounding.
\<close>

definition is_double :: "int \<Rightarrow> int \<Rightarrow> bool" where
  "is_double m e \<longleftrightarrow>
     m = 0 \<and> e = 0 \<or>
     0 < m \<and> odd m \<and> bitlen m \<le> 53 \<and> - 1074 \<le> e \<and> bitlen m + e \<le> 1024"

fun valid :: "double \<Rightarrow> bool" where
  "valid NaN = True"
| "valid (Infinity s) = True"
| "valid (Finite s m e) = is_double m e"

definition exact :: "int \<Rightarrow> int \<Rightarrow> bool" where
  "exact k e = (case canon \<bar>k\<bar> e of (m, e') \<Rightarrow> is_double m e')"

text \<open>
  The sign bit, and the comparisons with zero: \<open>x < 0\<close> and \<open>0 < x\<close> are false of
  NaN and of both zeros.
\<close>

fun is_nan :: "double \<Rightarrow> bool" where
  "is_nan NaN = True"
| "is_nan (Infinity s) = False"
| "is_nan (Finite s m e) = False"

fun sign_bit :: "double \<Rightarrow> bool" where
  "sign_bit NaN = False"
| "sign_bit (Infinity s) = s"
| "sign_bit (Finite s m e) = s"

fun is_zero :: "double \<Rightarrow> bool" where
  "is_zero NaN = False"
| "is_zero (Infinity s) = False"
| "is_zero (Finite s m e) = (m = 0)"

definition negative :: "double \<Rightarrow> bool" where
  "negative x \<longleftrightarrow> \<not> is_nan x \<and> sign_bit x \<and> \<not> is_zero x"

definition positive :: "double \<Rightarrow> bool" where
  "positive x \<longleftrightarrow> \<not> is_nan x \<and> \<not> sign_bit x \<and> \<not> is_zero x"

section \<open>The Cube class of cube.js\<close>

text \<open>
  The class has one data property, \<open>this.length\<close>, written once by the constructor.
  JavaScript is dynamically typed, so the property holds whatever value the caller
  passed: the record is polymorphic in the type of that value. The arithmetic methods
  are taken at numbers.

  The second field is the own property \<open>add\<close> of the object. A call \<open>this.add(...)\<close>
  is resolved on the receiver when the call happens: an instance normally inherits
  \<open>add\<close> from the prototype, and test 4 of cubeTest.js puts a recording wrapper in
  front of it with \<open>sinon.spy(myObj, 'add')\<close>. The wrapper keeps the argument list
  of every call it has seen.
\<close>

datatype add_property = Inherited | Spied "(double \<times> double) list"

record 'a Cube =
  length_field :: 'a
  add_prop :: add_property

text \<open>\<open>constructor(length) { this.length = length; }\<close>: no check, no conversion.\<close>

definition constructor :: "'a \<Rightarrow> 'a Cube" where
  "constructor length' = \<lparr>length_field = length', add_prop = Inherited\<rparr>"

text \<open>
  A method is a function of its arguments and of the receiver, and returns its result
  together with the receiver as the call leaves it, so that an assignment to
  \<open>this.length\<close> in a method body would show in the second component.
\<close>

definition add :: "double \<Rightarrow> double \<Rightarrow> 'a Cube \<Rightarrow> double \<times> 'a Cube" where
  "add num1 num2 this = (dadd num1 num2, this)"

text \<open>
  The property lookup \<open>this.add\<close>: the prototype's method, or the spy in front of it.
  The spy calls the method it wraps and appends the arguments to its record.
\<close>

definition this_add :: "double \<Rightarrow> double \<Rightarrow> 'a Cube \<Rightarrow> double \<times> 'a Cube" where
  "this_add num1 num2 this =
     (case add_prop this of
        Inherited \<Rightarrow> add num1 num2 this
      | Spied calls \<Rightarrow>
          (let (r, this') = add num1 num2 this
           in (r, this'\<lparr>add_prop := Spied (calls @ [(num1, num2)])\<rparr>)))"

definition sinon_spy_add :: "'a Cube \<Rightarrow> 'a Cube" where
  "sinon_spy_add obj = obj\<lparr>add_prop := Spied []\<rparr>"

definition spy_calls :: "'a Cube \<Rightarrow> (double \<times> double) list" where
  "spy_calls obj = (case add_prop obj of Inherited \<Rightarrow> [] | Spied calls \<Rightarrow> calls)"

definition callAanotherMethod :: "double \<Rightarrow> double \<Rightarrow> 'a Cube \<Rightarrow> double \<times> 'a Cube" where
  "callAanotherMethod num1 num2 this = this_add num1 num2 this"

definition getSideLength :: "'a Cube \<Rightarrow> 'a \<times> 'a Cube" where
  "getSideLength this = (length_field this, this)"

definition getSurfaceArea :: "double Cube \<Rightarrow> double \<times> double Cube" where
  "getSurfaceArea this = (dmul (dmul (length_field this) (length_field this)) (num 6), this)"

definition getVolume :: "double Cube \<Rightarrow> double \<times> double Cube" where
  "getVolume this = (Math_pow (length_field this) 3, this)"

section \<open>Objects by reference\<close>

text \<open>
  A program holds its cubes by reference: \<open>new Cube(length)\<close> allocates an object and
  runs the constructor on it, and a method call reads the receiver from the heap and
  writes back what the method left of it. A reference is the index of the object in
  allocation order; a call through a reference that was never allocated has no result.
\<close>

type_synonym 'a heap = "'a Cube list"

definition new_Cube :: "'a \<Rightarrow> 'a heap \<Rightarrow> nat \<times> 'a heap" where
  "new_Cube length' h = (length h, h @ [constructor length'])"

definition invoke :: "('a Cube \<Rightarrow> 'r \<times> 'a Cube) \<Rightarrow> nat \<Rightarrow> 'a heap \<Rightarrow> ('r \<times> 'a heap) option" where
  "invoke method ref h =
     (if ref < length h
      then (let (r, this') = method (h ! ref) in Some (r, h[ref := this']))
      else None)"

datatype accessor = GetSideLength | GetSurfaceArea | GetVolume

fun accessor_method :: "accessor \<Rightarrow> double Cube \<Rightarrow> double \<times> double Cube" where
  "accessor_method GetSideLength = getSideLength"
| "accessor_method GetSurfaceArea = getSurfaceArea"
| "accessor_method GetVolume = getVolume"

text \<open>A run of accessor calls, each on some object, collecting the results in order.\<close>

fun run_calls :: "(accessor \<times> nat) list \<Rightarrow> double heap \<Rightarrow> (double list \<times> double heap) option" where
  "run_calls [] h = Some ([], h)"
| "run_calls ((a, ref) # cs) h =
     (case invoke (accessor_method a) ref h of
        None \<Rightarrow> None
      | Some (r, h') \<Rightarrow>
          (case run_calls cs h' of
             None \<Rightarrow> None
           | Some (rs, h'') \<Rightarrow> Some (r # rs, h'')))"

text \<open>Every call of the run goes to an object that was allocated.\<close>

definition live_calls :: "(accessor \<times> nat) list \<Rightarrow> 'a heap \<Rightarrow> bool" where
  "live_calls cs h \<longleftrightarrow> (\<forall>c \<in> set cs. snd c < length h)"

text \<open>
  What the spec says each accessor returns, as a function of the length alone: the
  length itself, six times its square, its third power, in the arithmetic of numbers.
\<close>

fun derived_quantity :: "accessor \<Rightarrow> double \<Rightarrow> double" where
  "derived_quantity GetSideLength L = L"
| "derived_quantity GetSurfaceArea L = dmul (num 6) (dmul L L)"
| "derived_quantity GetVolume L = Math_pow L 3"

section \<open>Timers and promises\<close>

text \<open>
  \<open>testPromise\<close> uses three services of the platform: \<open>new Promise\<close>, \<open>setTimeout\<close>
  and \<open>then\<close>. They are modelled by an event loop over a simulated clock that counts
  milliseconds. A promise is pending or settled, and settles once. A timer is a due
  time with the closure to run then; the closures of this program call \<open>resolve\<close> or
  \<open>reject\<close> of a promise with a value. A reaction is a \<open>then\<close> handler waiting for
  its promise; when the promise settles, the reaction becomes a job of the microtask
  queue, and the job settles the promise that \<open>then\<close> returned.
\<close>

datatype outcome = Fulfilled double | Rejected double

datatype pstate = Pending | Settled outcome

datatype task = Resolve nat double | Reject nat double

datatype reaction = Reaction (source: nat) (onFulfilled: "double \<Rightarrow> double") (derived: nat)

datatype job = RunHandler "double \<Rightarrow> double" double nat | PassRejection double nat

record loop =
  clock :: nat
  timers :: "(nat \<times> task) list"
  promises :: "pstate list"
  reactions :: "reaction list"
  jobs :: "job list"

definition idle_loop :: "nat \<Rightarrow> loop" where
  "idle_loop t = \<lparr>clock = t, timers = [], promises = [], reactions = [], jobs = []\<rparr>"

definition promise_state :: "loop \<Rightarrow> nat \<Rightarrow> pstate option" where
  "promise_state lp p = (if p < length (promises lp) then Some (promises lp ! p) else None)"

text \<open>
  The job of a reaction whose promise settled: a fulfilment value goes through the
  handler, a rejection passes to the derived promise (the \<open>then\<close> of this program
  has no rejection handler).
\<close>

fun reaction_job :: "outcome \<Rightarrow> reaction \<Rightarrow> job" where
  "reaction_job (Fulfilled v) r = RunHandler (onFulfilled r) v (derived r)"
| "reaction_job (Rejected e) r = PassRejection e (derived r)"

text \<open>Settling a pending promise queues its reactions; a settled promise stays as it is.\<close>

definition settle :: "nat \<Rightarrow> outcome \<Rightarrow> loop \<Rightarrow> loop" where
  "settle p out lp =
     (if promise_state lp p = Some Pending
      then lp\<lparr>promises := (promises lp)[p := Settled out],
              reactions := filter (\<lambda>r. source r \<noteq> p) (reactions lp),
              jobs := jobs lp @ map (reaction_job out) (filter (\<lambda>r. source r = p) (reactions lp))\<rparr>
      else lp)"

fun run_task :: "task \<Rightarrow> loop \<Rightarrow> loop" where
  "run_task (Resolve p v) lp = settle p (Fulfilled v) lp"
| "run_task (Reject p e) lp = settle p (Rejected e) lp"

fun run_job :: "job \<Rightarrow> loop \<Rightarrow> loop" where
  "run_job (RunHandler f v q) lp = settle q (Fulfilled (f v)) lp"
| "run_job (PassRejection e q) lp = settle q (Rejected e) lp"

text \<open>The microtask queue is drained in order; a job may queue further jobs.\<close>

function run_jobs :: "loop \<Rightarrow> loop" where
  "run_jobs lp =
     (case jobs lp of
        [] \<Rightarrow> lp
      | j # js \<Rightarrow> run_jobs (run_job j (lp\<lparr>jobs := js\<rparr>)))"
  by pat_completeness auto
termination
proof (relation "measure (\<lambda>lp. length (reactions lp) + length (jobs lp))")
  show "wf (measure (\<lambda>lp. length (reactions lp) + length (jobs lp)))"
    by simp
next
  fix lp :: loop and j js
  assume queue: "jobs lp = j # js"
  have same: "length (reactions (settle p out st)) + length (jobs (settle p out st))
        = length (reactions st) + length (jobs st)" for p out and st :: loop
    using sum_length_filter_compl [of "\<lambda>r. source r = p" "reactions st"]
    by (simp add: settle_def)
  have "length (reactions (run_job j (lp\<lparr>jobs := js\<rparr>))) + length (jobs (run_job j (lp\<lparr>jobs := js\<rparr>)))
        = length (reactions lp) + length js"
    by (cases j) (simp_all add: same)
  with queue show "(run_job j (lp\<lparr>jobs := js\<rparr>), lp)
        \<in> measure (\<lambda>lp. length (reactions lp) + length (jobs lp))"
    by simp
qed

declare run_jobs.simps [simp del]

text \<open>
  The timer to fire next among those due by time \<open>T\<close>: the earliest, and among
  equally early ones the one registered first.
\<close>

fun next_timer :: "nat \<Rightarrow> (nat \<times> task) list \<Rightarrow> (nat \<times> task) option" where
  "next_timer T [] = None"
| "next_timer T ((d, k) # ts) =
     (case next_timer T ts of
        None \<Rightarrow> (if d \<le> T then Some (d, k) else None)
      | Some (d', k') \<Rightarrow> (if d \<le> d' then Some (d, k) else Some (d', k')))"

text \<open>
  Letting the clock run to time \<open>T\<close>: each due timer fires at its due time, and the
  microtask queue is drained after each.
\<close>

function advance_to :: "nat \<Rightarrow> loop \<Rightarrow> loop" where
  "advance_to T lp =
     (case next_timer T (timers lp) of
        None \<Rightarrow> lp\<lparr>clock := max (clock lp) T\<rparr>
      | Some (d, k) \<Rightarrow>
          advance_to T
            (run_jobs (run_task k
               (lp\<lparr>clock := max (clock lp) d, timers := remove1 (d, k) (timers lp)\<rparr>))))"
  by pat_completeness auto
termination
proof (relation "measure (\<lambda>(T, lp). length (timers lp))")
  show "wf (measure (\<lambda>(T, lp). length (timers lp)))"
    by simp
next
  fix T :: nat and lp :: loop and x d k
  assume nxt: "next_timer T (timers lp) = Some x" and x: "(d, k) = x"
  have member: "next_timer T ts = Some y \<Longrightarrow> y \<in> set ts" for ts y
    by (induction ts) (auto split: option.splits if_splits)
  have settle_timers: "timers (settle p out st) = timers st" for p out and st :: loop
    by (simp add: settle_def)
  have jobs_timers: "timers (run_jobs st) = timers st" for st
  proof (induction st rule: run_jobs.induct)
    case (1 st)
    show ?case
    proof (cases "jobs st")
      case Nil
      then show ?thesis by (subst run_jobs.simps) simp
    next
      case (Cons j js)
      have "timers (run_job j (st\<lparr>jobs := js\<rparr>)) = timers st"
        by (cases j) (simp_all add: settle_timers)
      with Cons "1.IH" [OF Cons] show ?thesis
        by (subst run_jobs.simps) simp
    qed
  qed
  have task_timers: "timers (run_task k st) = timers st" for st
    by (cases k) (simp_all add: settle_timers)
  from nxt x have "(d, k) \<in> set (timers lp)"
    using member by blast
  then have "length (remove1 (d, k) (timers lp)) < length (timers lp)"
    by (simp add: length_remove1) (cases "timers lp"; simp)
  then show "((T, run_jobs (run_task k (lp\<lparr>clock := max (clock lp) d, timers := remove1 (d, k) (timers lp)\<rparr>))), T, lp)
        \<in> measure (\<lambda>(T, lp). length (timers lp))"
    by (simp add: jobs_timers task_timers)
qed

declare advance_to.simps [simp del]

text \<open>
  \<open>tick ms\<close>: the running code returns to the loop, which drains the microtask queue
  and lets \<open>ms\<close> milliseconds pass.
\<close>

definition tick :: "nat \<Rightarrow> loop \<Rightarrow> loop" where
  "tick ms lp = advance_to (clock lp + ms) (run_jobs lp)"

text \<open>
  \<open>new Promise(executor)\<close> allocates a pending promise and runs the executor at once,
  handing it the promise's \<open>resolve\<close> and \<open>reject\<close>.
\<close>

definition new_Promise ::
    "((double \<Rightarrow> task) \<Rightarrow> (double \<Rightarrow> task) \<Rightarrow> loop \<Rightarrow> loop) \<Rightarrow> loop \<Rightarrow> nat \<times> loop" where
  "new_Promise executor lp =
     (let p = length (promises lp)
      in (p, executor (Resolve p) (Reject p) (lp\<lparr>promises := promises lp @ [Pending]\<rparr>)))"

definition setTimeout :: "task \<Rightarrow> nat \<Rightarrow> loop \<Rightarrow> loop" where
  "setTimeout callback delay lp = lp\<lparr>timers := timers lp @ [(clock lp + delay, callback)]\<rparr>"

text \<open>
  \<open>p.then(onFulfilled)\<close> returns a new pending promise; the handler waits for \<open>p\<close>,
  or is queued at once when \<open>p\<close> is settled already.
\<close>

definition Promise_then :: "nat \<Rightarrow> (double \<Rightarrow> double) \<Rightarrow> loop \<Rightarrow> nat \<times> loop" where
  "Promise_then p handler lp =
     (let q = length (promises lp);
          lp' = lp\<lparr>promises := promises lp @ [Pending]\<rparr>
      in (q, case promise_state lp p of
               Some (Settled out) \<Rightarrow> lp'\<lparr>jobs := jobs lp' @ [reaction_job out (Reaction p handler q)]\<rparr>
             | _ \<Rightarrow> lp'\<lparr>reactions := reactions lp' @ [Reaction p handler q]\<rparr>))"

text \<open>
  \<open>testPromise\<close>: the executor registers a timer of 1000 ms whose closure is
  \<open>resolve(3)\<close>; the handler of \<open>then\<close> doubles its argument. The method returns the
  promise that \<open>then\<close> made. It reads nothing of the receiver.
\<close>

definition testPromise :: "loop \<Rightarrow> 'a Cube \<Rightarrow> (nat \<times> loop) \<times> 'a Cube" where
  "testPromise lp this =
     (let (p, lp1) = new_Promise (\<lambda>resolve reject. setTimeout (resolve (num 3)) 1000) lp;
          (q, lp2) = Promise_then p (\<lambda>result. dmul result (num 2)) lp1
      in ((q, lp2), this))"

text \<open>
  What a caller observes: the state of the promise that \<open>testPromise\<close> returned,
  \<open>ms\<close> milliseconds after the call returned to the loop. \<open>inner_after\<close> observes
  the promise made by \<open>new Promise\<close>, which is the first one the call allocates.
\<close>

definition result_after :: "nat \<Rightarrow> loop \<Rightarrow> 'a Cube \<Rightarrow> pstate option" where
  "result_after ms lp this =
     (let ((q, lp'), this') = testPromise lp this in promise_state (tick ms lp') q)"

definition inner_after :: "nat \<Rightarrow> loop \<Rightarrow> 'a Cube \<Rightarrow> pstate option" where
  "inner_after ms lp this =
     (let ((q, lp'), this') = testPromise lp this
      in promise_state (tick ms lp') (length (promises lp)))"

section \<open>Properties of loop states\<close>

text \<open>
  The promise that a timer closure or a job settles, and the outcome it settles it with.
\<close>

fun task_target :: "task \<Rightarrow> nat" where
  "task_target (Resolve p v) = p"
| "task_target (Reject p e) = p"

fun task_outcome :: "task \<Rightarrow> outcome" where
  "task_outcome (Resolve p v) = Fulfilled v"
| "task_outcome (Reject p e) = Rejected e"

fun job_target :: "job \<Rightarrow> nat" where
  "job_target (RunHandler f v q) = q"
| "job_target (PassRejection e q) = q"

fun job_outcome :: "job \<Rightarrow> outcome" where
  "job_outcome (RunHandler f v q) = Fulfilled (f v)"
| "job_outcome (PassRejection e q) = Rejected e"

text \<open>
  A well-formed loop mentions allocated promises only: every timer closure, every
  waiting reaction and every queued job settles a promise that exists. A closure
  cannot hold a reference to a promise that is not allocated yet: the idle loop is
  well-formed, and a call of \<open>testPromise\<close> and the passing of time keep a loop
  well-formed.
\<close>

definition well_formed :: "loop \<Rightarrow> bool" where
  "well_formed lp \<longleftrightarrow>
     (\<forall>x \<in> set (timers lp). task_target (snd x) < length (promises lp)) \<and>
     (\<forall>r \<in> set (reactions lp). derived r < length (promises lp)) \<and>
     (\<forall>j \<in> set (jobs lp). job_target j < length (promises lp))"

text \<open>
  Three stages of one call of \<open>testPromise\<close> that made the promises \<open>p\<close> (by
  \<open>new Promise\<close>) and \<open>q\<close> (by \<open>then\<close>) with the timer due at \<open>t1\<close>.
  \<open>waiting\<close>: both are pending, the timer and the reaction are registered, and
  nothing else in the loop settles \<open>p\<close> or \<open>q\<close>. \<open>half_done\<close>: the timer has
  fired, \<open>p\<close> holds 3 and the handler's job is queued. \<open>finished\<close>: \<open>p\<close> holds 3
  and \<open>q\<close> holds 6.
\<close>

definition waiting :: "nat \<Rightarrow> nat \<Rightarrow> nat \<Rightarrow> loop \<Rightarrow> bool" where
  "waiting p q t1 st \<longleftrightarrow>
     p \<noteq> q \<and>
     promise_state st p = Some Pending \<and> promise_state st q = Some Pending \<and>
     (t1, Resolve p (num 3)) \<in> set (timers st) \<and>
     (\<forall>x \<in> set (timers st). task_target (snd x) = p \<or> task_target (snd x) = q
         \<longrightarrow> x = (t1, Resolve p (num 3))) \<and>
     Reaction p (\<lambda>result. dmul result (num 2)) q \<in> set (reactions st) \<and>
     (\<forall>r \<in> set (reactions st). derived r = p \<or> derived r = q
         \<longrightarrow> r = Reaction p (\<lambda>result. dmul result (num 2)) q) \<and>
     (\<forall>j \<in> set (jobs st). job_target j \<noteq> p \<and> job_target j \<noteq> q)"

definition half_done :: "nat \<Rightarrow> nat \<Rightarrow> loop \<Rightarrow> bool" where
  "half_done p q st \<longleftrightarrow>
     p \<noteq> q \<and>
     promise_state st p = Some (Settled (Fulfilled (num 3))) \<and> promise_state st q = Some Pending \<and>
     RunHandler (\<lambda>result. dmul result (num 2)) (num 3) q \<in> set (jobs st) \<and>
     (\<forall>j \<in> set (jobs st). job_target j = q \<longrightarrow> j = RunHandler (\<lambda>result. dmul result (num 2)) (num 3) q) \<and>
     (\<forall>r \<in> set (reactions st). derived r \<noteq> q)"

definition finished :: "nat \<Rightarrow> nat \<Rightarrow> loop \<Rightarrow> bool" where
  "finished p q st \<longleftrightarrow>
     promise_state st p = Some (Settled (Fulfilled (num 3))) \<and>
     promise_state st q = Some (Settled (Fulfilled (num 6)))"

section \<open>Rounding is exact on doubles\<close>

lemma canon_zero: "m \<le> 0 \<Longrightarrow> canon m e = (0, 0)"
  by (subst canon.simps) simp

lemma canon_odd: "0 < m \<Longrightarrow> odd m \<Longrightarrow> canon m e = (m, e)"
  by (subst canon.simps) simp

lemma canon_even: "0 < m \<Longrightarrow> even m \<Longrightarrow> canon m e = canon (m div 2) (e + 1)"
  by (subst canon.simps) simp

lemma canon_pow2: "0 < m \<Longrightarrow> canon (m * 2 ^ k) e = canon m (e + int k)"
proof (induction k arbitrary: e)
  case 0
  then show ?case by simp
next
  case (Suc k)
  have "canon (m * 2 ^ Suc k) e = canon ((m * 2 ^ Suc k) div 2) (e + 1)"
    using Suc.prems by (intro canon_even) simp_all
  also have "(m * 2 ^ Suc k) div 2 = m * 2 ^ k"
    by simp
  finally show ?case
    using Suc.IH [OF Suc.prems, of "e + 1"] by (simp add: add.assoc)
qed

lemma canon_decomp:
  assumes "0 < m"
  shows "\<exists>k m'. canon m e = (m', e + int k) \<and> m = m' * 2 ^ k \<and> odd m' \<and> 0 < m'"
  using assms
proof (induction m e rule: canon.induct)
  case (1 m e)
  show ?case
  proof (cases "even m")
    case False
    with "1.prems" have "canon m e = (m, e + int 0) \<and> m = m * 2 ^ 0 \<and> odd m \<and> 0 < m"
      by (simp add: canon_odd)
    then show ?thesis by blast
  next
    case True
    with "1.prems" have pos: "0 < m div 2" by presburger
    from "1.IH" [OF _ True pos] "1.prems" obtain k m' where
      "canon (m div 2) (e + 1) = (m', e + 1 + int k)" "m div 2 = m' * 2 ^ k" "odd m'" "0 < m'"
      by auto
    with True "1.prems" have "canon m e = (m', e + int (Suc k)) \<and> m = m' * 2 ^ Suc k \<and> odd m' \<and> 0 < m'"
      by (auto simp: canon_even)
    then show ?thesis by blast
  qed
qed

lemma round_shift_pow2:
  assumes "sh \<le> k"
  shows "round_shift (m * 2 ^ k) sh = m * 2 ^ (k - sh)"
proof (cases "sh = 0")
  case True
  then show ?thesis by (simp add: round_shift_def)
next
  case False
  from assms have split: "(2::int) ^ k = 2 ^ (k - sh) * 2 ^ sh"
    by (simp flip: power_add)
  have q: "(m * 2 ^ k) div 2 ^ sh = m * 2 ^ (k - sh)"
    unfolding split by (simp flip: mult.assoc)
  have r: "(m * 2 ^ k) mod 2 ^ sh = 0"
    unfolding split by (simp flip: mult.assoc)
  have "(0::int) < 2 ^ (sh - 1)" by simp
  with False q r show ?thesis
    by (simp add: round_shift_def Let_def)
qed

lemma round_double_exact:
  assumes "0 < m" "odd m" "bitlen m \<le> 53" "- 1074 \<le> e" "bitlen m + e \<le> 1024"
  shows "round_double s (m * 2 ^ k) (e - int k) = Finite s m e"
proof -
  define sh where "sh = nat (max (bitlen (m * 2 ^ k) - 53) (- 1074 - (e - int k)))"
  have len: "bitlen (m * 2 ^ k) = bitlen m + int k"
    using assms(1) by simp
  have le: "sh \<le> k"
    using assms(3,4) unfolding sh_def len by simp
  define Q where "Q = m * 2 ^ (k - sh)"
  define E' where "E' = e - int (k - sh)"
  have q: "round_shift (m * 2 ^ k) sh = Q"
    unfolding Q_def using le by (rule round_shift_pow2)
  have pos: "0 < Q"
    unfolding Q_def using assms(1) by simp
  have e': "e - int k + int sh = E'"
    unfolding E'_def using le by simp
  have "bitlen Q + E' = bitlen m + e"
    unfolding Q_def E'_def using assms(1) by simp
  with assms(5) have small: "\<not> 1024 < bitlen Q + E'"
    by simp
  have "canon Q E' = (m, e)"
    unfolding Q_def E'_def using assms(1,2) by (simp add: canon_pow2 canon_odd)
  with pos small show ?thesis
    unfolding round_double_def Let_def sh_def [symmetric] q e' by simp
qed

lemma round_double_zero: "round_double s 0 E = Finite s 0 0"
  by (simp add: round_double_def round_shift_def Let_def)

lemma canon_value:
  assumes "0 < M" and "canon M E = (m, e')"
  shows "real_of_int m * 2 powi e' = real_of_int M * 2 powi E" and "0 < m" and "odd m"
proof -
  from canon_decomp [OF assms(1), of E] assms(2) obtain k where
    k: "e' = E + int k" "M = m * 2 ^ k" "odd m" "0 < m"
    by auto
  show "0 < m" "odd m" by fact+
  show "real_of_int m * 2 powi e' = real_of_int M * 2 powi E"
    unfolding k(1) by (subst k(2)) (simp add: power_int_add)
qed

lemma pow2_shift:
  assumes "real_of_int a * 2 powi x = real_of_int b * 2 powi y" and "y \<le> x"
  shows "b = a * 2 ^ nat (x - y)"
proof -
  have "real_of_int b = real_of_int b * 2 powi y / 2 powi y"
    by simp
  also have "\<dots> = real_of_int a * (2 powi x / 2 powi y)"
    using assms(1) by simp
  also have "2 powi x / 2 powi y = (2::real) powi (x - y)"
    by (simp add: power_int_diff)
  also have "\<dots> = 2 ^ nat (x - y)"
    using assms(2) by (simp add: power_int_def)
  finally have "real_of_int b = real_of_int (a * 2 ^ nat (x - y))"
    by simp
  then show ?thesis
    by (simp only: of_int_eq_iff)
qed

lemma round_double_value:
  assumes "0 < M" and "is_double m e'" and "0 < m"
    and eq: "real_of_int M * 2 powi E = real_of_int m * 2 powi e'"
  shows "round_double s M E = Finite s m e'"
proof -
  from assms(2,3) have dbl: "odd m" "bitlen m \<le> 53" "- 1074 \<le> e'" "bitlen m + e' \<le> 1024"
    by (auto simp: is_double_def)
  have "E \<le> e'"
  proof (rule ccontr)
    assume "\<not> E \<le> e'"
    then have lt: "e' < E" by simp
    then have "m = M * 2 ^ nat (E - e')"
      using pow2_shift [OF eq] by simp
    moreover from lt have "0 < nat (E - e')" by simp
    ultimately have "even m" by simp
    with dbl(1) show False by simp
  qed
  then have "M = m * 2 ^ nat (e' - E)"
    using pow2_shift [OF eq [symmetric]] by simp
  moreover from \<open>E \<le> e'\<close> have "E = e' - int (nat (e' - E))" by simp
  ultimately show ?thesis
    using round_double_exact [OF assms(3) dbl, of s "nat (e' - E)"] by simp
qed

lemma dyadic_zero: "dyadic 0 e = Finite False 0 0"
  by (simp add: dyadic_def round_double_zero)

lemma dyadic_exact:
  assumes "exact k e"
  shows "dyadic k e = (case canon \<bar>k\<bar> e of (m, e') \<Rightarrow> Finite (k < 0) m e')"
proof (cases "k = 0")
  case True
  then show ?thesis by (simp add: dyadic_zero canon_zero)
next
  case False
  then have pos: "0 < \<bar>k\<bar>" by simp
  obtain m e' where c: "canon \<bar>k\<bar> e = (m, e')" by (cases "canon \<bar>k\<bar> e")
  from canon_value [OF pos c] assms c
  have "round_double (k < 0) \<bar>k\<bar> e = Finite (k < 0) m e'"
    by (intro round_double_value pos) (simp_all add: exact_def)
  with c show ?thesis by (simp add: dyadic_def)
qed








lemma dmul_commute: "dmul x y = dmul y x"
proof -
  have "(s \<noteq> t) = (t \<noteq> s)" for s t :: bool
    by auto
  then show ?thesis
    by (cases x; cases y) (simp_all add: mult.commute add.commute)
qed

lemma round_double_sign: "\<not> is_nan (round_double s M E) \<and> sign_bit (round_double s M E) = s"
  by (simp add: round_double_def Let_def split: prod.split)

lemma round_shift_bound:
  assumes "0 \<le> M" and "bitlen M - 53 \<le> int sh"
  shows "0 \<le> round_shift M sh" and "round_shift M sh \<le> 2 ^ 53"
proof -
  have lt: "M < 2 ^ (53 + sh)"
  proof -
    from assms(2) have "bitlen M \<le> int (53 + sh)" by simp
    then show ?thesis
      unfolding bitlen_le_iff_power by (simp add: nat_add_distrib)
  qed
  have q: "M div 2 ^ sh < 2 ^ 53"
  proof -
    have "M = M div 2 ^ sh * 2 ^ sh + M mod 2 ^ sh"
      by (rule div_mult_mod_eq [symmetric])
    moreover have "0 \<le> M mod 2 ^ sh"
      by simp
    moreover have "M < 2 ^ 53 * 2 ^ sh"
      using lt by (simp add: power_add)
    ultimately have "M div 2 ^ sh * 2 ^ sh < 2 ^ 53 * 2 ^ sh"
      by linarith
    then show ?thesis
      by (simp only: mult_less_cancel_right) simp
  qed
  have q0: "0 \<le> M div 2 ^ sh"
    using assms(1) by (simp add: pos_imp_zdiv_nonneg_iff)
  show "0 \<le> round_shift M sh"
    using assms(1) q0 by (simp add: round_shift_def Let_def)
  show "round_shift M sh \<le> 2 ^ 53"
  proof (cases "sh = 0")
    case True
    with lt show ?thesis by (simp add: round_shift_def)
  next
    case False
    with q show ?thesis by (simp add: round_shift_def Let_def)
  qed
qed

lemma valid_round_double:
  assumes "0 \<le> M"
  shows "valid (round_double s M E)"
proof -
  define sh where "sh = nat (max (bitlen M - 53) (- 1074 - E))"
  define q where "q = round_shift M sh"
  define e where "e = E + int sh"
  have sh1: "bitlen M - 53 \<le> int sh" and sh2: "- 1074 \<le> e"
    unfolding sh_def e_def by linarith+
  note qb = round_shift_bound [OF assms sh1, folded q_def]
  have rd: "round_double s M E =
      (if q \<le> 0 then Finite s 0 0
       else if 1024 < bitlen q + e then Infinity s
       else (case canon q e of (m, e') \<Rightarrow> Finite s m e'))"
    unfolding round_double_def Let_def sh_def [symmetric] q_def [symmetric] e_def [symmetric] ..
  show ?thesis
  proof (cases "q \<le> 0 \<or> 1024 < bitlen q + e")
    case True
    then show ?thesis
      unfolding rd by (auto simp: is_double_def)
  next
    case False
    then have pos: "0 < q" and small: "bitlen q + e \<le> 1024" by simp_all
    from canon_decomp [OF pos, of e] obtain k m where
      c: "canon q e = (m, e + int k)" "q = m * 2 ^ k" "odd m" "0 < m"
      by auto
    have "m \<le> q"
      unfolding c(2) using c(4) by simp
    with qb(2) have "m \<le> 2 ^ 53" by simp
    moreover from c(3) have "m \<noteq> 2 ^ 53" by auto
    ultimately have "m < 2 ^ 53" by simp
    then have len: "bitlen m \<le> 53"
      unfolding bitlen_le_iff_power by simp
    have "bitlen q = bitlen m + int k"
      unfolding c(2) using c(4) by simp
    with small have "bitlen m + (e + int k) \<le> 1024" by simp
    with len sh2 c(3,4) have "is_double m (e + int k)"
      by (simp add: is_double_def)
    with False c(1) show ?thesis
      unfolding rd by simp
  qed
qed

lemma valid_dyadic: "valid (dyadic k e)"
  by (simp add: dyadic_def valid_round_double)

lemma valid_num: "valid (num k)"
  by (simp add: num_def valid_dyadic)

lemma valid_dmul: "valid x \<Longrightarrow> valid y \<Longrightarrow> valid (dmul x y)"
  by (cases x; cases y) (auto simp: is_double_def valid_round_double)

lemma valid_dadd: "valid x \<Longrightarrow> valid y \<Longrightarrow> valid (dadd x y)"
  by (cases x; cases y) (auto simp: is_double_def Let_def valid_round_double)

lemma valid_Math_pow: "valid x \<Longrightarrow> valid (Math_pow x n)"
  by (cases x) (auto simp: Math_pow_def valid_num is_double_def valid_round_double)

lemma round_double_nonzero:
  assumes "0 < M" and "- 1074 < bitlen M + E"
  shows "\<not> is_zero (round_double s M E)"
proof -
  define sh where "sh = nat (max (bitlen M - 53) (- 1074 - E))"
  define q where "q = round_shift M sh"
  have "int sh < bitlen M"
    unfolding sh_def using assms(2) bitlen_nonneg [of M] assms(1)
    by (auto simp: bitlen_eq_zero_iff dest: order_antisym)
  then have "int sh \<le> bitlen M - 1" by simp
  then have "sh \<le> nat (bitlen M - 1)" by simp
  then have "(2::int) ^ sh \<le> 2 ^ nat (bitlen M - 1)"
    by (intro power_increasing) simp_all
  also have "\<dots> \<le> M"
    using bitlen_bounds [OF assms(1)] by simp
  finally have "0 < M div 2 ^ sh"
    by (simp add: pos_imp_zdiv_pos_iff)
  then have pos: "0 < q"
    unfolding q_def using assms(1) by (simp add: round_shift_def Let_def)
  obtain m e' where c: "canon q (E + int sh) = (m, e')" by (cases "canon q (E + int sh)")
  from canon_decomp [OF pos, of "E + int sh"] c have "0 < m" by auto
  with pos c show ?thesis
    unfolding round_double_def Let_def sh_def [symmetric] q_def [symmetric] by simp
qed

lemma three_times_two: "dmul (num 3) (num 2) = num 6"
  by code_simp

section \<open>Settling, the job queue and the timers\<close>

lemma run_task_settle: "run_task k st = settle (task_target k) (task_outcome k) st"
  by (cases k) simp_all

lemma run_job_settle: "run_job j st = settle (job_target j) (job_outcome j) st"
  by (cases j) simp_all

lemma job_target_reaction_job [simp]: "job_target (reaction_job out r) = derived r"
  by (cases out) simp_all

lemma promise_state_settle:
  "promise_state (settle x out st) y =
     (if x = y \<and> promise_state st y = Some Pending then Some (Settled out) else promise_state st y)"
  by (cases "x = y") (auto simp: settle_def promise_state_def)

lemma timers_settle [simp]: "timers (settle x out st) = timers st"
  by (simp add: settle_def)

lemma clock_settle [simp]: "clock (settle x out st) = clock st"
  by (simp add: settle_def)

lemma reactions_settle:
  "set (reactions (settle x out st)) =
     (if promise_state st x = Some Pending then {r \<in> set (reactions st). source r \<noteq> x}
      else set (reactions st))"
  by (auto simp: settle_def)

lemma jobs_settle:
  "set (jobs (settle x out st)) =
     (if promise_state st x = Some Pending
      then set (jobs st) \<union> reaction_job out ` {r \<in> set (reactions st). source r = x}
      else set (jobs st))"
  by (auto simp: settle_def)

lemma waitingD:
  assumes "waiting p q t1 st"
  shows "p \<noteq> q"
    and "promise_state st p = Some Pending"
    and "promise_state st q = Some Pending"
    and "(t1, Resolve p (num 3)) \<in> set (timers st)"
    and "\<And>x. x \<in> set (timers st) \<Longrightarrow> task_target (snd x) = p \<or> task_target (snd x) = q
           \<Longrightarrow> x = (t1, Resolve p (num 3))"
    and "Reaction p (\<lambda>result. dmul result (num 2)) q \<in> set (reactions st)"
    and "\<And>r. r \<in> set (reactions st) \<Longrightarrow> derived r = p \<or> derived r = q
           \<Longrightarrow> r = Reaction p (\<lambda>result. dmul result (num 2)) q"
    and "\<And>j. j \<in> set (jobs st) \<Longrightarrow> job_target j \<noteq> p \<and> job_target j \<noteq> q"
  using assms unfolding waiting_def by blast+

lemma waitingI:
  assumes "p \<noteq> q"
    and "promise_state st p = Some Pending"
    and "promise_state st q = Some Pending"
    and "(t1, Resolve p (num 3)) \<in> set (timers st)"
    and "\<And>x. x \<in> set (timers st) \<Longrightarrow> task_target (snd x) = p \<or> task_target (snd x) = q
           \<Longrightarrow> x = (t1, Resolve p (num 3))"
    and "Reaction p (\<lambda>result. dmul result (num 2)) q \<in> set (reactions st)"
    and "\<And>r. r \<in> set (reactions st) \<Longrightarrow> derived r = p \<or> derived r = q
           \<Longrightarrow> r = Reaction p (\<lambda>result. dmul result (num 2)) q"
    and "\<And>j. j \<in> set (jobs st) \<Longrightarrow> job_target j \<noteq> p \<and> job_target j \<noteq> q"
  shows "waiting p q t1 st"
  unfolding waiting_def using assms by blast

lemma waiting_settle:
  assumes w: "waiting p q t1 st" and x: "x \<noteq> p" "x \<noteq> q"
  shows "waiting p q t1 (settle x out st)"
proof (rule waitingI)
  note d = waitingD [OF w]
  show "p \<noteq> q" by (rule d(1))
  show "promise_state (settle x out st) p = Some Pending"
    using d(2) x by (simp add: promise_state_settle)
  show "promise_state (settle x out st) q = Some Pending"
    using d(3) x by (simp add: promise_state_settle)
  show "(t1, Resolve p (num 3)) \<in> set (timers (settle x out st))"
    using d(4) by simp
  show "y = (t1, Resolve p (num 3))"
    if "y \<in> set (timers (settle x out st))" "task_target (snd y) = p \<or> task_target (snd y) = q" for y
    using that d(5) [of y] by simp
  show "Reaction p (\<lambda>result. dmul result (num 2)) q \<in> set (reactions (settle x out st))"
    using d(6) x by (simp add: reactions_settle)
  show "r = Reaction p (\<lambda>result. dmul result (num 2)) q"
    if "r \<in> set (reactions (settle x out st))" "derived r = p \<or> derived r = q" for r
  proof -
    from that(1) have "r \<in> set (reactions st)"
      by (simp add: reactions_settle split: if_splits)
    then show ?thesis using that(2) by (rule d(7))
  qed
  show "job_target j \<noteq> p \<and> job_target j \<noteq> q" if "j \<in> set (jobs (settle x out st))" for j
  proof -
    from that consider "j \<in> set (jobs st)"
      | r where "r \<in> set (reactions st)" "source r = x" "j = reaction_job out r"
      by (auto simp: jobs_settle split: if_splits)
    then show ?thesis
    proof cases
      case 1
      then show ?thesis by (rule d(8))
    next
      case 2
      have "derived r \<noteq> p \<and> derived r \<noteq> q"
      proof (rule ccontr)
        assume "\<not> (derived r \<noteq> p \<and> derived r \<noteq> q)"
        then have "derived r = p \<or> derived r = q" by blast
        with 2(1) have "r = Reaction p (\<lambda>result. dmul result (num 2)) q" by (rule d(7))
        with 2(2) x show False by simp
      qed
      with 2(3) show ?thesis by simp
    qed
  qed
qed

lemma run_jobs_Nil: "jobs st = [] \<Longrightarrow> run_jobs st = st"
  by (subst run_jobs.simps) simp

lemma run_jobs_Cons: "jobs st = j # js \<Longrightarrow> run_jobs st = run_jobs (run_job j (st\<lparr>jobs := js\<rparr>))"
  by (subst run_jobs.simps) simp

lemma run_jobs_invariant:
  assumes "P st"
    and step: "\<And>st j js. P st \<Longrightarrow> jobs st = j # js \<Longrightarrow> P (run_job j (st\<lparr>jobs := js\<rparr>))"
  shows "P (run_jobs st) \<and> jobs (run_jobs st) = []"
  using assms(1)
proof (induction st rule: run_jobs.induct)
  case (1 st)
  show ?case
  proof (cases "jobs st")
    case Nil
    with "1.prems" show ?thesis by (simp add: run_jobs_Nil)
  next
    case (Cons j js)
    from "1.prems" Cons have "P (run_job j (st\<lparr>jobs := js\<rparr>))" by (rule step)
    with "1.IH" [OF Cons] show ?thesis by (simp add: run_jobs_Cons [OF Cons])
  qed
qed

lemma advance_to_invariant:
  assumes "P st"
    and "\<And>st d k. P st \<Longrightarrow> next_timer T (timers st) = Some (d, k) \<Longrightarrow>
        P (run_jobs (run_task k (st\<lparr>clock := max (clock st) d, timers := remove1 (d, k) (timers st)\<rparr>)))"
    and "\<And>st. P st \<Longrightarrow> next_timer T (timers st) = None \<Longrightarrow> Q (st\<lparr>clock := max (clock st) T\<rparr>)"
  shows "Q (advance_to T st)"
  using assms
proof (induction T st rule: advance_to.induct)
  case (1 T st)
  note fire = "1.prems"(2) and stop = "1.prems"(3)
  show ?case
  proof (cases "next_timer T (timers st)")
    case None
    with "1.prems"(1) have "Q (st\<lparr>clock := max (clock st) T\<rparr>)" by (rule stop)
    with None show ?thesis by (subst advance_to.simps) simp
  next
    case (Some x)
    obtain d k where x: "x = (d, k)" by (cases x)
    with Some have nxt: "next_timer T (timers st) = Some (d, k)" by simp
    with "1.prems"(1) have "P (run_jobs (run_task k
        (st\<lparr>clock := max (clock st) d, timers := remove1 (d, k) (timers st)\<rparr>)))"
      by (rule fire)
    then have "Q (advance_to T (run_jobs (run_task k
        (st\<lparr>clock := max (clock st) d, timers := remove1 (d, k) (timers st)\<rparr>))))"
      using fire stop by (rule "1.IH" [OF Some x [symmetric]])
    with nxt show ?thesis by (subst advance_to.simps) simp
  qed
qed

lemma next_timer_Some: "next_timer T ts = Some x \<Longrightarrow> x \<in> set ts \<and> fst x \<le> T"
  by (induction ts arbitrary: x) (auto split: option.splits if_splits)

lemma next_timer_None: "next_timer T ts = None \<Longrightarrow> x \<in> set ts \<Longrightarrow> T < fst x"
  by (induction ts) (auto split: option.splits if_splits)

lemma promise_state_fields [simp]:
  "promise_state (st\<lparr>jobs := js\<rparr>) = promise_state st"
  "promise_state (st\<lparr>clock := c\<rparr>) = promise_state st"
  "promise_state (st\<lparr>timers := ts\<rparr>) = promise_state st"
  by (simp_all add: promise_state_def fun_eq_iff)

lemma waiting_clock [simp]: "waiting p q t1 (st\<lparr>clock := c\<rparr>) = waiting p q t1 st"
  by (simp add: waiting_def)

lemma waiting_jobs:
  "waiting p q t1 st \<Longrightarrow> set js \<subseteq> set (jobs st) \<Longrightarrow> waiting p q t1 (st\<lparr>jobs := js\<rparr>)"
  unfolding waiting_def by simp blast

lemma waiting_timers:
  "waiting p q t1 st \<Longrightarrow> set ts \<subseteq> set (timers st) \<Longrightarrow> (t1, Resolve p (num 3)) \<in> set ts
     \<Longrightarrow> waiting p q t1 (st\<lparr>timers := ts\<rparr>)"
  unfolding waiting_def by simp blast

lemma waiting_run_job:
  assumes w: "waiting p q t1 st" and queue: "jobs st = j # js"
  shows "waiting p q t1 (run_job j (st\<lparr>jobs := js\<rparr>))"
proof -
  have "job_target j \<noteq> p \<and> job_target j \<noteq> q"
    using waitingD(8) [OF w, of j] queue by simp
  moreover have "waiting p q t1 (st\<lparr>jobs := js\<rparr>)"
    using w queue by (intro waiting_jobs) auto
  ultimately show ?thesis
    by (simp add: run_job_settle waiting_settle)
qed

lemma waiting_run_jobs: "waiting p q t1 st \<Longrightarrow> waiting p q t1 (run_jobs st)"
  using run_jobs_invariant [of "waiting p q t1" st] waiting_run_job by blast

lemma waiting_fire_other:
  assumes w: "waiting p q t1 st" and x: "(d, k) \<in> set (timers st)" "(d, k) \<noteq> (t1, Resolve p (num 3))"
  shows "waiting p q t1
    (run_jobs (run_task k (st\<lparr>clock := c, timers := remove1 (d, k) (timers st)\<rparr>)))"
proof -
  have "task_target k \<noteq> p \<and> task_target k \<noteq> q"
    using waitingD(5) [OF w, of "(d, k)"] x by auto
  moreover have "(t1, Resolve p (num 3)) \<in> set (remove1 (d, k) (timers st))"
    using waitingD(4) [OF w] x(2) in_set_remove1 [of "(t1, Resolve p (num 3))" "(d, k)" "timers st"]
    by blast
  then have "waiting p q t1 (st\<lparr>clock := c, timers := remove1 (d, k) (timers st)\<rparr>)"
    using w by (simp add: waiting_timers set_remove1_subset)
  ultimately show ?thesis
    by (simp add: run_task_settle waiting_settle waiting_run_jobs)
qed

lemma waiting_advance_to:
  assumes "waiting p q t1 st" and early: "T < t1"
  shows "waiting p q t1 (advance_to T st)"
proof (rule advance_to_invariant [where P = "waiting p q t1"])
  show "waiting p q t1 st" by fact
next
  fix st d k
  assume w: "waiting p q t1 st" and nxt: "next_timer T (timers st) = Some (d, k)"
  from next_timer_Some [OF nxt] early have "(d, k) \<in> set (timers st)" "(d, k) \<noteq> (t1, Resolve p (num 3))"
    by auto
  with w show "waiting p q t1
      (run_jobs (run_task k (st\<lparr>clock := max (clock st) d, timers := remove1 (d, k) (timers st)\<rparr>)))"
    by (rule waiting_fire_other)
next
  fix st
  assume "waiting p q t1 st"
  then show "waiting p q t1 (st\<lparr>clock := max (clock st) T\<rparr>)"
    by simp
qed

lemma finished_fields [simp]:
  "finished p q (st\<lparr>jobs := js\<rparr>) = finished p q st"
  "finished p q (st\<lparr>clock := c\<rparr>) = finished p q st"
  "finished p q (st\<lparr>timers := ts\<rparr>) = finished p q st"
  by (simp_all add: finished_def)

lemma finished_settle: "finished p q st \<Longrightarrow> finished p q (settle x out st)"
  by (simp add: finished_def promise_state_settle)

lemma finished_run_jobs: "finished p q st \<Longrightarrow> finished p q (run_jobs st)"
  using run_jobs_invariant [of "finished p q" st]
  by (simp add: run_job_settle finished_settle)

lemma half_done_run_job:
  assumes h: "half_done p q st \<or> finished p q st" and queue: "jobs st = j # js"
  shows "half_done p q (run_job j (st\<lparr>jobs := js\<rparr>)) \<or> finished p q (run_job j (st\<lparr>jobs := js\<rparr>))"
  using h
proof
  assume "finished p q st"
  then show ?thesis by (simp add: run_job_settle finished_settle)
next
  assume hd: "half_done p q st"
  let ?J = "RunHandler (\<lambda>result. dmul result (num 2)) (num 3) q"
  let ?st = "st\<lparr>jobs := js\<rparr>"
  from hd have pq: "p \<noteq> q"
    and sp: "promise_state st p = Some (Settled (Fulfilled (num 3)))"
    and sq: "promise_state st q = Some Pending"
    and mem: "?J \<in> set (jobs st)"
    and only: "\<And>j'. j' \<in> set (jobs st) \<Longrightarrow> job_target j' = q \<Longrightarrow> j' = ?J"
    and rs: "\<And>r. r \<in> set (reactions st) \<Longrightarrow> derived r \<noteq> q"
    unfolding half_done_def by blast+
  show ?thesis
  proof (cases "job_target j = q")
    case True
    with only [of j] queue have "j = ?J" by simp
    then have "finished p q (run_job j ?st)"
      using pq sp sq by (simp add: finished_def promise_state_settle three_times_two)
    then show ?thesis ..
  next
    case False
    let ?x = "job_target j" and ?out = "job_outcome j"
    have "?J \<noteq> j" using False by auto
    with mem queue have mem': "?J \<in> set js" by simp
    have "half_done p q (settle ?x ?out ?st)"
      unfolding half_done_def
    proof (intro conjI ballI impI)
      show "p \<noteq> q" by fact
      show "promise_state (settle ?x ?out ?st) p = Some (Settled (Fulfilled (num 3)))"
        using sp by (simp add: promise_state_settle)
      show "promise_state (settle ?x ?out ?st) q = Some Pending"
        using sq False by (simp add: promise_state_settle)
      show "?J \<in> set (jobs (settle ?x ?out ?st))"
        using mem' by (simp add: jobs_settle)
      show "derived r \<noteq> q" if "r \<in> set (reactions (settle ?x ?out ?st))" for r
        using that rs [of r] by (simp add: reactions_settle split: if_splits)
      show "j' = ?J" if "j' \<in> set (jobs (settle ?x ?out ?st))" "job_target j' = q" for j'
      proof -
        from that(1) consider "j' \<in> set js"
          | r where "r \<in> set (reactions st)" "j' = reaction_job ?out r"
          by (auto simp: jobs_settle split: if_splits)
        then show ?thesis
        proof cases
          case 1
          with queue that(2) show ?thesis by (intro only) simp_all
        next
          case 2
          with rs [of r] that(2) show ?thesis by simp
        qed
      qed
    qed
    then show ?thesis by (simp add: run_job_settle)
  qed
qed

lemma half_done_run_jobs:
  assumes "half_done p q st"
  shows "finished p q (run_jobs st)"
proof -
  have "(half_done p q (run_jobs st) \<or> finished p q (run_jobs st)) \<and> jobs (run_jobs st) = []"
    using assms half_done_run_job
    by (intro run_jobs_invariant [where P = "\<lambda>st. half_done p q st \<or> finished p q st"]) blast+
  then show ?thesis
    by (auto simp: half_done_def)
qed

lemma waiting_fire:
  assumes w: "waiting p q t1 st"
  shows "half_done p q (settle p (Fulfilled (num 3)) (st\<lparr>clock := c, timers := ts\<rparr>))"
proof -
  note d = waitingD [OF w]
  let ?st = "st\<lparr>clock := c, timers := ts\<rparr>"
  let ?R = "Reaction p (\<lambda>result. dmul result (num 2)) q"
  have pend: "promise_state ?st p = Some Pending"
    using d(2) by simp
  show ?thesis
    unfolding half_done_def
  proof (intro conjI ballI impI)
    show "p \<noteq> q" by (rule d(1))
    show "promise_state (settle p (Fulfilled (num 3)) ?st) p = Some (Settled (Fulfilled (num 3)))"
      using d(2) by (simp add: promise_state_settle)
    show "promise_state (settle p (Fulfilled (num 3)) ?st) q = Some Pending"
      using d(1,3) by (simp add: promise_state_settle)
    have "?R \<in> {r \<in> set (reactions ?st). source r = p}"
      using d(6) by simp
    then have "reaction_job (Fulfilled (num 3)) ?R
        \<in> reaction_job (Fulfilled (num 3)) ` {r \<in> set (reactions ?st). source r = p}"
      by (rule imageI)
    then have "reaction_job (Fulfilled (num 3)) ?R \<in> set (jobs (settle p (Fulfilled (num 3)) ?st))"
      unfolding jobs_settle using pend by simp
    then show "RunHandler (\<lambda>result. dmul result (num 2)) (num 3) q \<in> set (jobs (settle p (Fulfilled (num 3)) ?st))"
      by simp
    show "derived r \<noteq> q" if "r \<in> set (reactions (settle p (Fulfilled (num 3)) ?st))" for r
    proof
      assume "derived r = q"
      moreover from that pend have r: "r \<in> set (reactions st)" "source r \<noteq> p"
        by (simp_all add: reactions_settle)
      ultimately have "r = ?R" using d(7) [of r] by blast
      with r(2) show False by simp
    qed
    show "j = RunHandler (\<lambda>result. dmul result (num 2)) (num 3) q"
      if "j \<in> set (jobs (settle p (Fulfilled (num 3)) ?st))" "job_target j = q" for j
    proof -
      from that(1) pend consider "j \<in> set (jobs st)"
        | r where "r \<in> set (reactions st)" "j = reaction_job (Fulfilled (num 3)) r"
        by (auto simp: jobs_settle)
      then show ?thesis
      proof cases
        case 1
        with d(8) [of j] that(2) show ?thesis by simp
      next
        case 2
        with that(2) have "derived r = q" by simp
        with 2(1) have "r = ?R" using d(7) [of r] by blast
        with 2(2) show ?thesis by simp
      qed
    qed
  qed
qed

lemma finished_advance_to:
  assumes start: "waiting p q t1 st \<or> finished p q st" and late: "t1 \<le> T"
  shows "finished p q (advance_to T st)"
proof (rule advance_to_invariant [where P = "\<lambda>st. waiting p q t1 st \<or> finished p q st"])
  show "waiting p q t1 st \<or> finished p q st" by fact
next
  fix st d k
  let ?next = "run_jobs (run_task k (st\<lparr>clock := max (clock st) d, timers := remove1 (d, k) (timers st)\<rparr>))"
  assume inv: "waiting p q t1 st \<or> finished p q st"
    and nxt: "next_timer T (timers st) = Some (d, k)"
  from inv show "waiting p q t1 ?next \<or> finished p q ?next"
  proof
    assume "finished p q st"
    then have "finished p q ?next"
      by (simp add: run_task_settle finished_settle finished_run_jobs)
    then show ?thesis ..
  next
    assume w: "waiting p q t1 st"
    show ?thesis
    proof (cases "(d, k) = (t1, Resolve p (num 3))")
      case True
      then have "finished p q ?next"
        using waiting_fire [OF w] by (simp add: half_done_run_jobs)
      then show ?thesis ..
    next
      case False
      with next_timer_Some [OF nxt] w have "waiting p q t1 ?next"
        by (intro waiting_fire_other) simp_all
      then show ?thesis ..
    qed
  qed
next
  fix st
  assume inv: "waiting p q t1 st \<or> finished p q st"
    and none: "next_timer T (timers st) = None"
  have "\<not> waiting p q t1 st"
  proof
    assume "waiting p q t1 st"
    then have "(t1, Resolve p (num 3)) \<in> set (timers st)" by (rule waitingD(4))
    with none have "T < t1" by (auto dest: next_timer_None)
    with late show False by simp
  qed
  with inv show "finished p q (st\<lparr>clock := max (clock st) T\<rparr>)"
    by simp
qed

section \<open>One call of testPromise\<close>

lemma testPromise_eq:
  "testPromise lp this =
     ((Suc (length (promises lp)),
       lp\<lparr>promises := promises lp @ [Pending, Pending],
          timers := timers lp @ [(clock lp + 1000, Resolve (length (promises lp)) (num 3))],
          reactions := reactions lp @
            [Reaction (length (promises lp)) (\<lambda>result. dmul result (num 2)) (Suc (length (promises lp)))]\<rparr>),
      this)"
  by (simp add: testPromise_def new_Promise_def setTimeout_def Promise_then_def promise_state_def
      Let_def nth_append)

lemma testPromise_waiting:
  assumes "well_formed lp"
  shows "waiting (length (promises lp)) (Suc (length (promises lp))) (clock lp + 1000)
           (snd (fst (testPromise lp this)))"
  using assms
  unfolding testPromise_eq waiting_def well_formed_def
  by (auto simp: promise_state_def nth_append)

lemma clock_testPromise: "clock (snd (fst (testPromise lp this))) = clock lp"
  by (simp add: testPromise_eq)

lemma testPromise_early:
  assumes "well_formed lp" and "ms < 1000"
  shows "result_after ms lp this = Some Pending" and "inner_after ms lp this = Some Pending"
proof -
  let ?lp = "snd (fst (testPromise lp this))"
  let ?p = "length (promises lp)"
  have "waiting ?p (Suc ?p) (clock lp + 1000) (tick ms ?lp)"
    unfolding tick_def clock_testPromise
    using assms by (intro waiting_advance_to waiting_run_jobs testPromise_waiting) simp_all
  then have "promise_state (tick ms ?lp) ?p = Some Pending"
      "promise_state (tick ms ?lp) (Suc ?p) = Some Pending"
    by (simp_all add: waitingD)
  then show "result_after ms lp this = Some Pending" and "inner_after ms lp this = Some Pending"
    by (simp_all add: result_after_def inner_after_def testPromise_eq)
qed

lemma testPromise_late:
  assumes "well_formed lp" and "1000 \<le> ms"
  shows "result_after ms lp this = Some (Settled (Fulfilled (num 6)))"
    and "inner_after ms lp this = Some (Settled (Fulfilled (num 3)))"
proof -
  let ?lp = "snd (fst (testPromise lp this))"
  let ?p = "length (promises lp)"
  have "waiting ?p (Suc ?p) (clock lp + 1000) (run_jobs ?lp)"
    using assms(1) by (intro waiting_run_jobs testPromise_waiting)
  then have "finished ?p (Suc ?p) (tick ms ?lp)"
    unfolding tick_def clock_testPromise
    using assms(2) by (intro finished_advance_to [where ?t1.0 = "clock lp + 1000"]) simp_all
  then show "result_after ms lp this = Some (Settled (Fulfilled (num 6)))"
    and "inner_after ms lp this = Some (Settled (Fulfilled (num 3)))"
    by (simp_all add: result_after_def inner_after_def testPromise_eq finished_def)
qed

section \<open>Well-formed states, and calls through the heap\<close>

lemma well_formed_idle: "well_formed (idle_loop t)"
  by (simp add: well_formed_def idle_loop_def)

lemma well_formed_settle:
  assumes "well_formed st"
  shows "well_formed (settle x out st)"
  using assms unfolding well_formed_def settle_def by auto

lemma well_formed_run_jobs:
  assumes "well_formed st"
  shows "well_formed (run_jobs st)"
proof -
  have "well_formed (run_job j (st'\<lparr>jobs := js\<rparr>))" if "well_formed st'" "jobs st' = j # js" for st' j js
  proof -
    from that have "well_formed (st'\<lparr>jobs := js\<rparr>)"
      by (simp add: well_formed_def)
    then show ?thesis
      by (simp add: run_job_settle well_formed_settle)
  qed
  with assms show ?thesis
    using run_jobs_invariant [of well_formed st] by blast
qed

lemma well_formed_advance_to:
  assumes "well_formed st"
  shows "well_formed (advance_to T st)"
proof (rule advance_to_invariant [where P = well_formed])
  show "well_formed st" by fact
next
  fix st d k
  assume wf: "well_formed st"
  have "set (remove1 (d, k) (timers st)) \<subseteq> set (timers st)"
    by (rule set_remove1_subset)
  with wf have "well_formed (st\<lparr>clock := max (clock st) d, timers := remove1 (d, k) (timers st)\<rparr>)"
    unfolding well_formed_def by auto
  then show "well_formed (run_jobs (run_task k
      (st\<lparr>clock := max (clock st) d, timers := remove1 (d, k) (timers st)\<rparr>)))"
    by (simp add: run_task_settle well_formed_settle well_formed_run_jobs)
next
  fix st
  assume "well_formed st"
  then show "well_formed (st\<lparr>clock := max (clock st) T\<rparr>)"
    by (simp add: well_formed_def)
qed

lemma well_formed_tick: "well_formed lp \<Longrightarrow> well_formed (tick ms lp)"
  by (simp add: tick_def well_formed_run_jobs well_formed_advance_to)

lemma well_formed_testPromise:
  assumes "well_formed lp"
  shows "well_formed (snd (fst (testPromise lp this)))"
  using assms unfolding testPromise_eq well_formed_def by (auto simp: less_Suc_eq)

lemma invoke_accessor:
  "ref < length h \<Longrightarrow>
     invoke (accessor_method a) ref h = Some (derived_quantity a (length_field (h ! ref)), h)"
  by (cases a)
    (simp_all add: invoke_def getSideLength_def getSurfaceArea_def getVolume_def
      dmul_commute [of _ "num 6"])

lemma run_calls_pure:
  "\<forall>c \<in> set cs. snd c < length h \<Longrightarrow>
     run_calls cs h = Some (map (\<lambda>c. derived_quantity (fst c) (length_field (h ! snd c))) cs, h)"
proof (induction cs)
  case Nil
  show ?case by simp
next
  case (Cons c cs)
  obtain a ref where c: "c = (a, ref)" by (cases c)
  with Cons.prems have "ref < length h" by simp
  then have "invoke (accessor_method a) ref h
      = Some (derived_quantity a (length_field (h ! ref)), h)"
    by (rule invoke_accessor)
  moreover from Cons have "run_calls cs h
      = Some (map (\<lambda>c. derived_quantity (fst c) (length_field (h ! snd c))) cs, h)"
    by simp
  ultimately show ?case using c by simp
qed

section \<open>The methods on doubles\<close>










text \<open>
  The arithmetic and the methods at inputs whose results are known.
  \<open>2\<^bsup>600\<^esup> * 2\<^bsup>600\<^esup>\<close> overflows; the double \<open>1.3\<close> to the third power is
  \<open>2.197\<close> by \<open>Math.pow\<close> and \<open>2.1970000000000005\<close> by two multiplications; the
  largest double, and the tie above it, which goes to infinity; half the least
  subnormal, which goes to zero; the signs of zero results. The length \<open>0.1\<close>
  (the double \<open>3602879701896397 \<sqdot> 2\<^bsup>-55\<^esup>\<close>) has the surface area
  \<open>0.06000000000000001\<close>, which is not the double \<open>0.06\<close>, and the volume
  \<open>0.0010000000000000002\<close>; the length \<open>1e200\<close> has an infinite surface area and
  volume. \<open>0.1 + 0.2\<close> is \<open>0.30000000000000004\<close> and not the double \<open>0.3\<close>.
\<close>

lemma arithmetic_examples:
  "dmul (dyadic 1 600) (dyadic 1 600) = Infinity False"
  "Math_pow (dyadic 5854679515581645 (- 52)) 3 = dyadic 2473602095333245 (- 50)"
  "dmul (dmul (dyadic 5854679515581645 (- 52)) (dyadic 5854679515581645 (- 52)))
     (dyadic 5854679515581645 (- 52)) = dyadic 4947204190666491 (- 51)"
  "dyadic 9007199254740991 971 = Finite False 9007199254740991 971"
  "dyadic 18014398509481983 970 = Infinity False"
  "dyadic 1 (- 1075) = Finite False 0 0"
  "dyadic 3 (- 1075) = Finite False 1 (- 1073)"
  "dadd (num (- 3)) (num 3) = Finite False 0 0"
  "dmul (num (- 3)) (num 0) = Finite True 0 0"
  "fst (getSurfaceArea (constructor (dyadic 3602879701896397 (- 55))))
     = dyadic 4323455642275677 (- 56)"
  "dyadic 4323455642275677 (- 56) \<noteq> dyadic 1080863910568919 (- 54)"
  "fst (getVolume (constructor (dyadic 3602879701896397 (- 55))))
     = dyadic 4611686018427389 (- 62)"
  "fst (getSurfaceArea (constructor (dyadic 2941796710330669 613))) = Infinity False"
  "fst (getVolume (constructor (dyadic 2941796710330669 613))) = Infinity False"
  by code_simp+

lemma one_tenth_plus_two_tenths:
  "dadd (dyadic 3602879701896397 (- 55)) (dyadic 3602879701896397 (- 54))
     = dyadic 1351079888211149 (- 52)"
  "dyadic 1351079888211149 (- 52) \<noteq> dyadic 5404319552844595 (- 54)"
  "exact 3602879701896397 (- 55)" "exact 3602879701896397 (- 54)"
  "exact 1351079888211149 (- 52)" "exact 5404319552844595 (- 54)"
  by code_simp+

lemma num_six_repr: "num 6 = Finite False 3 1"
  by code_simp

lemma times_six_sign:
  assumes "\<not> is_nan x" and "\<not> sign_bit x"
  shows "\<not> is_nan (dmul x (num 6)) \<and> \<not> sign_bit (dmul x (num 6))"
  using assms by (cases x) (simp_all add: num_six_repr round_double_sign)

lemma bitlen_positive: "0 < m \<Longrightarrow> 1 \<le> bitlen m"
  using bitlen_eq_zero_iff [of m] bitlen_nonneg [of m] by linarith

lemma times_six_positive:
  assumes "valid x" and "positive x"
  shows "positive (dmul x (num 6))"
proof (cases x)
  case NaN
  with assms(2) show ?thesis by (simp add: positive_def)
next
  case (Infinity s)
  with assms(2) show ?thesis by (simp add: positive_def num_six_repr)
next
  case (Finite s m e)
  with assms have "\<not> s" "0 < m" "- 1074 \<le> e"
    by (auto simp: positive_def is_double_def)
  then have "0 < m * 3" by simp
  moreover have "- 1074 < bitlen (m * 3) + (e + 1)"
    using bitlen_positive [OF \<open>0 < m * 3\<close>] \<open>- 1074 \<le> e\<close> by linarith
  ultimately have "\<not> is_zero (round_double False (m * 3) (e + 1))"
    by (rule round_double_nonzero)
  with Finite \<open>\<not> s\<close> show ?thesis
    by (simp add: positive_def num_six_repr round_double_sign)
qed

lemma dyadic_negative:
  assumes "exact k e" and "k < 0"
  obtains m e' where "dyadic k e = Finite True m e'" and "0 < m" and "e \<le> e'"
proof -
  from assms(2) have pos: "0 < \<bar>k\<bar>" by simp
  from canon_decomp [OF pos, of e] obtain j m where
    c: "canon \<bar>k\<bar> e = (m, e + int j)" "0 < m"
    by auto
  with assms that [of m "e + int j"] show ?thesis
    by (simp add: dyadic_exact)
qed

section \<open>The claims of the specification\<close>










text \<open>
  C4. For all numbers a and b, callAanotherMethod(a, b) returns what add(a, b) returns,
  and it calls add through the receiver exactly once, with a and b: a spy installed on
  add has recorded exactly that call afterwards, after whatever it had recorded before.
\<close>

theorem callAanotherMethod_delegates:
  "fst (callAanotherMethod a b this) = fst (add a b this)
   \<and> snd (callAanotherMethod a b (constructor L)) = constructor L
   \<and> fst (callAanotherMethod a b (this\<lparr>add_prop := Spied calls\<rparr>)) = fst (add a b this)
   \<and> spy_calls (snd (callAanotherMethod a b (this\<lparr>add_prop := Spied calls\<rparr>))) = calls @ [(a, b)]
   \<and> spy_calls (snd (callAanotherMethod a b (sinon_spy_add (constructor L)))) = [(a, b)]"
  by (simp add: callAanotherMethod_def this_add_def add_def spy_calls_def sinon_spy_add_def
      constructor_def split: add_property.split)

text \<open>
  C5. For every Cube and every well-formed state of the loop, the promise that
  testPromise returns is pending as long as fewer than 1000 milliseconds have passed,
  and is fulfilled with 6 from then on; the promise of the deferred computation is
  fulfilled with 3 at the same moment.
\<close>

theorem testPromise_resolves_after_delay:
  assumes "well_formed lp"
  shows "result_after ms lp this = (if ms < 1000 then Some Pending else Some (Settled (Fulfilled (num 6))))
    \<and> inner_after ms lp this = (if ms < 1000 then Some Pending else Some (Settled (Fulfilled (num 3))))"
  using assms testPromise_early [of lp ms this] testPromise_late [of lp ms this]
  by (cases "ms < 1000") simp_all

text \<open>
  C5 at a loop that holds another program's timer, which rejects another promise after
  300 ms: testPromise called at time 5 is pending 999 ms later and holds 6 after 1000 ms.
\<close>

theorem testPromise_resolves_after_delay_witness:
  "well_formed \<lparr>clock = 5, timers = [(305, Reject 0 (num 1))], promises = [Pending],
       reactions = [], jobs = []\<rparr>
   \<and> result_after 999 \<lparr>clock = 5, timers = [(305, Reject 0 (num 1))], promises = [Pending],
       reactions = [], jobs = []\<rparr> (constructor (num 2)) = Some Pending
   \<and> result_after 1000 \<lparr>clock = 5, timers = [(305, Reject 0 (num 1))], promises = [Pending],
       reactions = [], jobs = []\<rparr> (constructor (num 2)) = Some (Settled (Fulfilled (num 6)))"
  using testPromise_resolves_after_delay [of "\<lparr>clock = 5, timers = [(305, Reject 0 (num 1))],
        promises = [Pending], reactions = [], jobs = []\<rparr>" 999 "constructor (num 2)"]
    testPromise_resolves_after_delay [of "\<lparr>clock = 5, timers = [(305, Reject 0 (num 1))],
        promises = [Pending], reactions = [], jobs = []\<rparr>" 1000 "constructor (num 2)"]
  by (simp add: well_formed_def)

text \<open>
  C6. For every Cube and every well-formed state of the loop, the promise that
  testPromise returns is never rejected, whatever time has passed and whatever the
  reason would be, and it is fulfilled once 1000 milliseconds have passed.
\<close>

theorem testPromise_never_rejects:
  assumes "well_formed lp"
  shows "result_after ms lp this \<noteq> Some (Settled (Rejected e))
    \<and> result_after (1000 + ms) lp this = Some (Settled (Fulfilled (num 6)))"
proof
  show "result_after ms lp this \<noteq> Some (Settled (Rejected e))"
    using assms testPromise_early(1) [of lp ms this] testPromise_late(1) [of lp ms this]
    by (cases "ms < 1000") simp_all
  show "result_after (1000 + ms) lp this = Some (Settled (Fulfilled (num 6)))"
    using assms by (intro testPromise_late(1)) simp_all
qed

text \<open>
  C6 at a loop in which a rejection is already on its way to another promise: a job
  that passes a rejection on is queued, and a timer rejects a second promise.
\<close>

theorem testPromise_never_rejects_witness:
  "well_formed \<lparr>clock = 0, timers = [(10, Reject 1 (num 7))], promises = [Pending, Pending],
       reactions = [], jobs = [PassRejection (num 4) 0]\<rparr>
   \<and> result_after 10 \<lparr>clock = 0, timers = [(10, Reject 1 (num 7))], promises = [Pending, Pending],
       reactions = [], jobs = [PassRejection (num 4) 0]\<rparr> (constructor (num 3))
       \<noteq> Some (Settled (Rejected (num 7)))
   \<and> result_after (1000 + 10) \<lparr>clock = 0, timers = [(10, Reject 1 (num 7))],
       promises = [Pending, Pending], reactions = [], jobs = [PassRejection (num 4) 0]\<rparr>
       (constructor (num 3)) = Some (Settled (Fulfilled (num 6)))"
  using testPromise_never_rejects [of "\<lparr>clock = 0, timers = [(10, Reject 1 (num 7))],
        promises = [Pending, Pending], reactions = [], jobs = [PassRejection (num 4) 0]\<rparr>"
        10 "constructor (num 3)" "num 7"]
  by (simp add: well_formed_def)

text \<open>
  C7. The constructor stores its argument as it is, whatever its type and sign, with no
  check, and getSideLength on the new object returns that argument; so for a string
  and for a negative number, and so through \<open>new\<close> and a call by reference.
\<close>

theorem getSideLength_constructor:
  "length_field (constructor L) = L
   \<and> fst (getSideLength (constructor L)) = L
   \<and> fst (getSideLength (constructor ''two'')) = ''two''
   \<and> fst (getSideLength (constructor (num (- 4)))) = num (- 4)
   \<and> invoke getSideLength (fst (new_Cube L h)) (snd (new_Cube L h))
       = Some (L, snd (new_Cube L h))"
  by (simp add: getSideLength_def constructor_def new_Cube_def invoke_def)

text \<open>
  C8. No method changes the length of its receiver: add, callAanotherMethod and
  testPromise leave it as it was, and the three accessors leave the whole object as it
  was. So any run of accessor calls on live objects leaves the heap as it was and
  returns, for each call, the derived quantity of the length its object was built
  with: a repeated call returns the same result, and of two cubes built one after the
  other each answers from its own length.
\<close>

theorem length_never_mutated:
  "length_field (snd (add a b this)) = length_field this
   \<and> length_field (snd (callAanotherMethod a b this)) = length_field this
   \<and> snd (getSideLength this) = this
   \<and> snd (getSurfaceArea cube) = cube
   \<and> snd (getVolume cube) = cube
   \<and> snd (testPromise lp this) = this
   \<and> (live_calls cs h \<longrightarrow>
        run_calls cs h
          = Some (map (\<lambda>c. derived_quantity (fst c) (length_field (h ! snd c))) cs, h))
   \<and> (new_Cube L1 h0 = (r1, h1) \<and> new_Cube L2 h1 = (r2, h2)
        \<and> set (map snd cs') \<subseteq> {r1, r2} \<longrightarrow>
        r1 \<noteq> r2 \<and>
        run_calls cs' h2
          = Some (map (\<lambda>c. derived_quantity (fst c) (if snd c = r1 then L1 else L2)) cs', h2))"
proof (intro conjI impI)
  show "length_field (snd (add a b this)) = length_field this"
    by (simp add: add_def)
  show "length_field (snd (callAanotherMethod a b this)) = length_field this"
    by (simp add: callAanotherMethod_def this_add_def add_def split: add_property.split)
  show "snd (getSideLength this) = this"
    by (simp add: getSideLength_def)
  show "snd (getSurfaceArea cube) = cube"
    by (simp add: getSurfaceArea_def)
  show "snd (getVolume cube) = cube"
    by (simp add: getVolume_def)
  show "snd (testPromise lp this) = this"
    by (simp add: testPromise_eq)
  show "run_calls cs h
      = Some (map (\<lambda>c. derived_quantity (fst c) (length_field (h ! snd c))) cs, h)"
    if "live_calls cs h"
    using that unfolding live_calls_def by (rule run_calls_pure)
next
  assume two: "new_Cube L1 h0 = (r1, h1) \<and> new_Cube L2 h1 = (r2, h2)
      \<and> set (map snd cs') \<subseteq> {r1, r2}"
  then have r: "r1 = length h0" "r2 = Suc (length h0)"
    and h2: "h2 = h0 @ [constructor L1, constructor L2]"
    by (auto simp: new_Cube_def)
  show "r1 \<noteq> r2" using r by simp
  have valid: "\<forall>c \<in> set cs'. snd c < length h2"
    using two r h2 by auto
  have "length_field (h2 ! snd c) = (if snd c = r1 then L1 else L2)" if "c \<in> set cs'" for c
    using two that r h2 by (auto simp: nth_append constructor_def)
  then have "map (\<lambda>c. derived_quantity (fst c) (length_field (h2 ! snd c))) cs'
      = map (\<lambda>c. derived_quantity (fst c) (if snd c = r1 then L1 else L2)) cs'"
    by simp
  with run_calls_pure [OF valid]
  show "run_calls cs' h2
      = Some (map (\<lambda>c. derived_quantity (fst c) (if snd c = r1 then L1 else L2)) cs', h2)"
    by simp
qed

text \<open>
  C8 on two cubes of lengths 2 and 3: the volume of the first is 8 both times it is
  asked, with calls on the second in between.
\<close>

theorem length_never_mutated_witness:
  "live_calls [(GetVolume, 0), (GetSurfaceArea, 1), (GetVolume, 0), (GetSideLength, 1)]
      [constructor (num 2), constructor (num 3)]
   \<and> run_calls [(GetVolume, 0), (GetSurfaceArea, 1), (GetVolume, 0), (GetSideLength, 1)]
        [constructor (num 2), constructor (num 3)]
      = Some ([num 8, num 54, num 8, num 3], [constructor (num 2), constructor (num 3)])
   \<and> new_Cube (num 2) [] = (0, [constructor (num 2)])
   \<and> new_Cube (num 3) [constructor (num 2)] = (1, [constructor (num 2), constructor (num 3)])
   \<and> set (map snd [(GetSurfaceArea, 1), (GetVolume, 0::nat)]) \<subseteq> {0, 1}
   \<and> run_calls [(GetSurfaceArea, 1), (GetVolume, 0)] [constructor (num 2), constructor (num 3)]
      = Some ([num 54, num 8], [constructor (num 2), constructor (num 3)])"
proof -
  have quantities: "Math_pow (num 2) 3 = num 8" "dmul (num 6) (dmul (num 3) (num 3)) = num 54"
    by code_simp+
  show ?thesis
    using length_never_mutated [where cs = "[(GetVolume, 0), (GetSurfaceArea, 1), (GetVolume, 0), (GetSideLength, 1)]"
        and h = "[constructor (num 2), constructor (num 3)]" and ?L1.0 = "num 2" and ?h0.0 = "[]"
        and ?r1.0 = 0 and ?h1.0 = "[constructor (num 2)]" and ?L2.0 = "num 3" and ?r2.0 = 1
        and ?h2.0 = "[constructor (num 2), constructor (num 3)]"
        and cs' = "[(GetSurfaceArea, 1), (GetVolume, 0)]" and a = "num 0" and b = "num 0"
        and this = "constructor (num 2)" and cube = "constructor (num 2)" and lp = "idle_loop 0"]
      quantities
    by (simp add: new_Cube_def constructor_def live_calls_def)
qed

text \<open>
  C9, as the spec states it: a negative length gives a negative surface area.
  The length - 2 gives the surface area 24.
\<close>

theorem negative_surface_counterexample:
  "negative (num (- 2))
   \<and> fst (getSurfaceArea (constructor (num (- 2)))) = num 24
   \<and> \<not> negative (fst (getSurfaceArea (constructor (num (- 2)))))"
  by code_simp

text \<open>
  C9, amended: for a negative length L, the infinite one included, the surface area
  is never negative: it is not NaN and its sign bit is clear, so that it is a positive
  number, plus infinity, or the zero + 0 when L * L underflows. The volume carries the
  sign of L: it is not NaN and its sign bit is set, so that it is a negative number,
  minus infinity, or the zero - 0 when the power underflows. For L a negative integer
  times a power of two with exponent at least - 537, the surface area is positive, and
  with exponent at least - 358 the volume is negative.
\<close>

theorem negative_length_signs:
  "(negative L \<longrightarrow>
      \<not> is_nan (fst (getSurfaceArea (constructor L)))
      \<and> \<not> sign_bit (fst (getSurfaceArea (constructor L)))
      \<and> \<not> negative (fst (getSurfaceArea (constructor L)))
      \<and> \<not> is_nan (fst (getVolume (constructor L)))
      \<and> sign_bit (fst (getVolume (constructor L)))
      \<and> \<not> positive (fst (getVolume (constructor L))))
   \<and> (exact k e \<and> k < 0 \<and> - 537 \<le> e \<longrightarrow>
      negative (dyadic k e) \<and> positive (fst (getSurfaceArea (constructor (dyadic k e)))))
   \<and> (exact k e \<and> k < 0 \<and> - 358 \<le> e \<longrightarrow>
      negative (dyadic k e) \<and> negative (fst (getVolume (constructor (dyadic k e)))))"
proof (intro conjI impI)
  assume neg: "negative L"
  have square: "\<not> is_nan (dmul L L) \<and> \<not> sign_bit (dmul L L)"
    using neg by (cases L) (simp_all add: negative_def round_double_sign)
  then have s: "\<not> is_nan (dmul (dmul L L) (num 6)) \<and> \<not> sign_bit (dmul (dmul L L) (num 6))"
    by (intro times_six_sign) simp_all
  show "\<not> is_nan (fst (getSurfaceArea (constructor L)))"
    and "\<not> sign_bit (fst (getSurfaceArea (constructor L)))"
    and "\<not> negative (fst (getSurfaceArea (constructor L)))"
    using s by (simp_all add: getSurfaceArea_def constructor_def negative_def)
  have v: "\<not> is_nan (Math_pow L 3) \<and> sign_bit (Math_pow L 3)"
    using neg by (cases L) (simp_all add: negative_def Math_pow_def round_double_sign)
  show "\<not> is_nan (fst (getVolume (constructor L)))"
    and "sign_bit (fst (getVolume (constructor L)))"
    and "\<not> positive (fst (getVolume (constructor L)))"
    using v by (simp_all add: getVolume_def constructor_def positive_def)
next
  assume "exact k e \<and> k < 0 \<and> - 537 \<le> e"
  then have ex: "exact k e" and k: "k < 0" and e: "- 537 \<le> e" by simp_all
  from ex k obtain m e' where r: "dyadic k e = Finite True m e'" "0 < m" "e \<le> e'"
    by (rule dyadic_negative)
  show "negative (dyadic k e)"
    using r by (simp add: negative_def)
  have "0 < m * m" using r(2) by simp
  moreover have "- 1074 < bitlen (m * m) + (e' + e')"
    using bitlen_positive [OF \<open>0 < m * m\<close>] r(3) e by linarith
  ultimately have "\<not> is_zero (round_double False (m * m) (e' + e'))"
    by (rule round_double_nonzero)
  then have "positive (dmul (dyadic k e) (dyadic k e))"
    unfolding r(1) by (simp add: positive_def round_double_sign)
  moreover have "valid (dmul (dyadic k e) (dyadic k e))"
    by (simp add: valid_dmul valid_dyadic)
  ultimately have "positive (dmul (dmul (dyadic k e) (dyadic k e)) (num 6))"
    by (intro times_six_positive)
  then show "positive (fst (getSurfaceArea (constructor (dyadic k e))))"
    by (simp add: getSurfaceArea_def constructor_def)
next
  assume "exact k e \<and> k < 0 \<and> - 358 \<le> e"
  then have ex: "exact k e" and k: "k < 0" and e: "- 358 \<le> e" by simp_all
  from ex k obtain m e' where r: "dyadic k e = Finite True m e'" "0 < m" "e \<le> e'"
    by (rule dyadic_negative)
  show "negative (dyadic k e)"
    using r by (simp add: negative_def)
  have "0 < m ^ 3" using r(2) by simp
  moreover have "- 1074 < bitlen (m ^ 3) + e' * 3"
    using bitlen_positive [OF \<open>0 < m ^ 3\<close>] r(3) e by linarith
  ultimately have "\<not> is_zero (round_double True (m ^ 3) (e' * 3))"
    by (rule round_double_nonzero)
  then have "negative (Math_pow (dyadic k e) 3)"
    unfolding r(1) by (simp add: negative_def Math_pow_def round_double_sign)
  then show "negative (fst (getVolume (constructor (dyadic k e))))"
    by (simp add: getVolume_def constructor_def)
qed

text \<open>
  C9, amended, at the length of minus the power - 540 of two, where the surface area
  is + 0 and the volume is - 0, and at the length - 2, where neither is a zero.
\<close>

theorem negative_length_signs_witness:
  "negative (dyadic (- 1) (- 540))
   \<and> fst (getSurfaceArea (constructor (dyadic (- 1) (- 540)))) = Finite False 0 0
   \<and> fst (getVolume (constructor (dyadic (- 1) (- 540)))) = Finite True 0 0
   \<and> \<not> negative (fst (getSurfaceArea (constructor (dyadic (- 1) (- 540)))))
   \<and> sign_bit (fst (getVolume (constructor (dyadic (- 1) (- 540)))))
   \<and> exact (- 2) 0 \<and> (- 2 :: int) < 0 \<and> (- 537 :: int) \<le> 0 \<and> (- 358 :: int) \<le> 0
   \<and> positive (fst (getSurfaceArea (constructor (dyadic (- 2) 0))))
   \<and> negative (fst (getVolume (constructor (dyadic (- 2) 0))))"
proof -
  have n: "negative (dyadic (- 1) (- 540))"
    by code_simp
  have z: "fst (getSurfaceArea (constructor (dyadic (- 1) (- 540)))) = Finite False 0 0"
      "fst (getVolume (constructor (dyadic (- 1) (- 540)))) = Finite True 0 0"
    by code_simp+
  have ex: "exact (- 2) 0"
    by code_simp
  from n negative_length_signs [of "dyadic (- 1) (- 540)" "- 2" 0]
  have "\<not> negative (fst (getSurfaceArea (constructor (dyadic (- 1) (- 540)))))"
    and "sign_bit (fst (getVolume (constructor (dyadic (- 1) (- 540)))))"
    by blast+
  moreover from ex negative_length_signs [of "dyadic (- 1) (- 540)" "- 2" 0]
  have "positive (fst (getSurfaceArea (constructor (dyadic (- 2) 0))))"
    and "negative (fst (getVolume (constructor (dyadic (- 2) 0))))"
    by simp_all
  ultimately show ?thesis
    using n z ex by simp
qed

text \<open>
  C10. testPromise does not depend on its receiver: on any two cubes, of any lengths
  and of any types of length, it returns the same promise and leaves the same loop, so
  the promise has the same state after any time.
\<close>

theorem testPromise_ignores_receiver:
  "fst (testPromise lp (constructor L1)) = fst (testPromise lp (constructor L2))
   \<and> fst (testPromise lp this1) = fst (testPromise lp this2)
   \<and> result_after ms lp this1 = result_after ms lp this2
   \<and> result_after ms lp (constructor (num 2)) = result_after ms lp (constructor ''five'')"
  by (simp add: testPromise_eq result_after_def)

end
